theory Spec2Isabelle
  imports Main
begin

section \<open>The AST as the walker reads it\<close>

text \<open>
  \<^verbatim>\<open>Visitor.h\<close> receives every node as a \<^verbatim>\<open>std::shared_ptr<ASTNode>\<close>. A handle is
  therefore an optional address: \<open>None\<close> is the empty pointer, \<open>Some p\<close> points at the
  object stored at \<open>p\<close>. The objects live in a store that the walk only reads, so that two
  handles may name the same object and a handle may lead back to an ancestor.
\<close>

type_synonym addr = nat

type_synonym handle = "addr option"

text \<open>
  Modelled from the spec: \<^verbatim>\<open>ASTNode.h\<close> is not part of the sources. The tag type has the
  twenty kinds that the dispatcher names and, as \<open>Unrecognized\<close>, every other value a tag
  may hold.
\<close>

datatype ASTNodeType =
    Program | Function | StmtSeq | Integer | Var | Assign | Invoke | IfThenElse | While
  | Call | Add | Sub | Mul | Div | LT | LE | GT | GE | EQ | NE
  | Unrecognized nat

text \<open>
  Modelled from the spec: the node classes of \<^verbatim>\<open>ASTNode.h\<close>, with the fields that
  \<^verbatim>\<open>Visitor.h\<close> reads (\<^verbatim>\<open>funcs_\<close>, \<^verbatim>\<open>body_\<close>, \<^verbatim>\<open>stmts_\<close>, \<^verbatim>\<open>var_\<close>, \<^verbatim>\<open>expr_\<close>,
  \<^verbatim>\<open>cond_\<close>, \<^verbatim>\<open>thenCase_\<close>, \<^verbatim>\<open>elseCase_\<close>, \<^verbatim>\<open>lhs_\<close>, \<^verbatim>\<open>rhs_\<close>; the trailing
  underscore is dropped). \<open>OtherNode k\<close> is an object whose tag is outside the twenty.
\<close>

datatype ASTNode =
    ProgramNode (funcs: "handle list")
  | FunctionNode (body: handle)
  | StmtSeqNode (stmts: "handle list")
  | IntegerNode
  | VarNode
  | AssignNode (var: handle) (expr: handle)
  | InvokeNode (expr: handle)
  | IfThenElseNode (cond: handle) (thenCase: handle) (elseCase: handle)
  | WhileNode (cond: handle) (body: handle)
  | CallNode
  | AddNode (lhs: handle) (rhs: handle)
  | SubNode (lhs: handle) (rhs: handle)
  | MulNode (lhs: handle) (rhs: handle)
  | DivNode (lhs: handle) (rhs: handle)
  | LTNode (lhs: handle) (rhs: handle)
  | LENode (lhs: handle) (rhs: handle)
  | GTNode (lhs: handle) (rhs: handle)
  | GENode (lhs: handle) (rhs: handle)
  | EQNode (lhs: handle) (rhs: handle)
  | NENode (lhs: handle) (rhs: handle)
  | OtherNode nat

type_synonym heap = "addr \<Rightarrow> ASTNode option"

text \<open>
  Modelled from the spec: \<^verbatim>\<open>nodeType()\<close> of \<^verbatim>\<open>ASTNode.h\<close>; the tag matches the concrete
  variant.
\<close>

fun nodeType :: "ASTNode \<Rightarrow> ASTNodeType" where
  "nodeType (ProgramNode fs) = Program"
| "nodeType (FunctionNode b) = Function"
| "nodeType (StmtSeqNode ss) = StmtSeq"
| "nodeType IntegerNode = Integer"
| "nodeType VarNode = Var"
| "nodeType (AssignNode v e) = Assign"
| "nodeType (InvokeNode e) = Invoke"
| "nodeType (IfThenElseNode c t e) = IfThenElse"
| "nodeType (WhileNode c b) = While"
| "nodeType CallNode = Call"
| "nodeType (AddNode l r) = Add"
| "nodeType (SubNode l r) = Sub"
| "nodeType (MulNode l r) = Mul"
| "nodeType (DivNode l r) = Div"
| "nodeType (LTNode l r) = LT"
| "nodeType (LENode l r) = LE"
| "nodeType (GTNode l r) = GT"
| "nodeType (GENode l r) = GE"
| "nodeType (EQNode l r) = EQ"
| "nodeType (NENode l r) = NE"
| "nodeType (OtherNode k) = Unrecognized k"

text \<open>The closed set of kinds: the twenty tags that have a \<^verbatim>\<open>DISPATCH_CASE\<close>.\<close>

fun recognized :: "ASTNodeType \<Rightarrow> bool" where
  "recognized (Unrecognized k) = False"
| "recognized K = True"

section \<open>Outcomes of a walk\<close>

text \<open>
  The base class has no fields and its handlers have no effect of their own. What a walk
  does is observed in two components of the state: the list of handler invocations made
  by the dispatcher so far (\<open>Visit K p\<close>: the handler of kind \<open>K\<close> was invoked on the
  node at \<open>p\<close>), and the fields \<open>'u\<close> of the pass that derives from the base class.
\<close>

datatype event = Visit ASTNodeType addr

type_synonym 'u state = "event list \<times> 'u"

text \<open>The only exception the file throws is \<^verbatim>\<open>std::runtime_error\<close>.\<close>

datatype exn = runtime_error string

text \<open>
  A call returns, or throws (the effects made so far stay), or reads through an empty
  pointer, which C++ leaves undefined: no exception is raised there and nothing is handed
  to the caller. \<open>Exhausted\<close> is the model's own: the nesting budget of \<open>run\<close> below ran
  out before the call finished.
\<close>

datatype 'u outcome =
    Return "'u state"
  | Throw exn "'u state"
  | Undefined "'u state"
  | Exhausted

type_synonym 'u action = "'u state \<Rightarrow> 'u outcome"

text \<open>The type of \<^verbatim>\<open>operator()\<close>, and of the twenty overloads of \<^verbatim>\<open>visit\<close> taken together.\<close>

type_synonym 'u walk = "handle \<Rightarrow> 'u action"

type_synonym 'u visit = "ASTNodeType \<Rightarrow> addr \<Rightarrow> ASTNode \<Rightarrow> 'u action"

text \<open>Two statements in sequence: the second runs when the first returned.\<close>

definition then_do :: "'u action \<Rightarrow> 'u action \<Rightarrow> 'u action" where
  "then_do a b s = (case a s of Return s' \<Rightarrow> b s' | r \<Rightarrow> r)"

text \<open>\<^verbatim>\<open>for (auto &&x : xs) { (*this)(x); }\<close>\<close>

fun for_each :: "'u walk \<Rightarrow> handle list \<Rightarrow> 'u action" where
  "for_each self [] s = Return s"
| "for_each self (h # hs) s = (case self h s of Return s' \<Rightarrow> for_each self hs s' | r \<Rightarrow> r)"

section \<open>The base class\<close>

text \<open>
  \<^verbatim>\<open>DISPATCH_CASE(name)\<close>: the virtual call \<^verbatim>\<open>visit(static_cast<name##Node*>(op.get()))\<close>.
  The handler receives the pointer and the object it points at; the invocation is
  recorded in the first component of the state.
\<close>

definition DISPATCH_CASE :: "'u visit \<Rightarrow> ASTNodeType \<Rightarrow> addr \<Rightarrow> ASTNode \<Rightarrow> 'u action" where
  "DISPATCH_CASE visit name p node s = visit name p node (fst s @ [Visit name p], snd s)"

text \<open>
  \<^verbatim>\<open>Visitor::operator()\<close>. \<open>visit\<close> is the object's own (virtual) handler family.
  \<^verbatim>\<open>op->nodeType()\<close> reads through the handle with no check: the read is undefined for
  the empty handle (and for an address where the store has no object, which a shared
  handle never holds).
\<close>

definition Visitor_call :: "'u visit \<Rightarrow> heap \<Rightarrow> 'u walk" where
  "Visitor_call visit H op s =
     (case op of
        None \<Rightarrow> Undefined s
      | Some p \<Rightarrow>
          (case H p of
             None \<Rightarrow> Undefined s
           | Some node \<Rightarrow>
               (case nodeType node of
                  Program \<Rightarrow> DISPATCH_CASE visit Program p node s
                | Function \<Rightarrow> DISPATCH_CASE visit Function p node s
                | StmtSeq \<Rightarrow> DISPATCH_CASE visit StmtSeq p node s
                | Integer \<Rightarrow> DISPATCH_CASE visit Integer p node s
                | Var \<Rightarrow> DISPATCH_CASE visit Var p node s
                | Assign \<Rightarrow> DISPATCH_CASE visit Assign p node s
                | Invoke \<Rightarrow> DISPATCH_CASE visit Invoke p node s
                | IfThenElse \<Rightarrow> DISPATCH_CASE visit IfThenElse p node s
                | While \<Rightarrow> DISPATCH_CASE visit While p node s
                | Call \<Rightarrow> DISPATCH_CASE visit Call p node s
                | Add \<Rightarrow> DISPATCH_CASE visit Add p node s
                | Sub \<Rightarrow> DISPATCH_CASE visit Sub p node s
                | Mul \<Rightarrow> DISPATCH_CASE visit Mul p node s
                | Div \<Rightarrow> DISPATCH_CASE visit Div p node s
                | LT \<Rightarrow> DISPATCH_CASE visit LT p node s
                | LE \<Rightarrow> DISPATCH_CASE visit LE p node s
                | GT \<Rightarrow> DISPATCH_CASE visit GT p node s
                | GE \<Rightarrow> DISPATCH_CASE visit GE p node s
                | EQ \<Rightarrow> DISPATCH_CASE visit EQ p node s
                | NE \<Rightarrow> DISPATCH_CASE visit NE p node s
                | Unrecognized k \<Rightarrow> Throw (runtime_error ''Unrecognized ASTNodeType'') s)))"

text \<open>\<^verbatim>\<open>VISIT_BINARY_NODE(name)\<close>\<close>

definition VISIT_BINARY_NODE :: "'u walk \<Rightarrow> ASTNode \<Rightarrow> 'u action" where
  "VISIT_BINARY_NODE self op = then_do (self (lhs op)) (self (rhs op))"

text \<open>
  The default handlers \<^verbatim>\<open>Visitor::visit\<close>, one equation per overload. \<open>self\<close> is
  \<^verbatim>\<open>(*this)(...)\<close>, the object's own entry operation. No overload exists for a tag outside
  the twenty, and the dispatcher never asks for one.
\<close>

fun Visitor_visit :: "'u walk \<Rightarrow> 'u visit" where
  "Visitor_visit self Program p op = for_each self (funcs op)"
| "Visitor_visit self Function p op = self (body op)"
| "Visitor_visit self StmtSeq p op = for_each self (stmts op)"
| "Visitor_visit self Integer p op = Return"
| "Visitor_visit self Var p op = Return"
| "Visitor_visit self Assign p op = then_do (self (var op)) (self (expr op))"
| "Visitor_visit self IfThenElse p op =
     then_do (self (cond op))
       (then_do (self (thenCase op))
          (if elseCase op \<noteq> None then self (elseCase op) else Return))"
| "Visitor_visit self While p op = then_do (self (cond op)) (self (body op))"
| "Visitor_visit self Invoke p op = self (expr op)"
| "Visitor_visit self Call p op = Return"
| "Visitor_visit self Add p op = VISIT_BINARY_NODE self op"
| "Visitor_visit self Sub p op = VISIT_BINARY_NODE self op"
| "Visitor_visit self Mul p op = VISIT_BINARY_NODE self op"
| "Visitor_visit self Div p op = VISIT_BINARY_NODE self op"
| "Visitor_visit self LT p op = VISIT_BINARY_NODE self op"
| "Visitor_visit self LE p op = VISIT_BINARY_NODE self op"
| "Visitor_visit self GT p op = VISIT_BINARY_NODE self op"
| "Visitor_visit self GE p op = VISIT_BINARY_NODE self op"
| "Visitor_visit self EQ p op = VISIT_BINARY_NODE self op"
| "Visitor_visit self NE p op = VISIT_BINARY_NODE self op"
| "Visitor_visit self (Unrecognized k) p op = Undefined"

section \<open>Classes and virtual calls\<close>

text \<open>
  Every member function of the class is virtual. A class is the pair of its bodies:
  the body of \<^verbatim>\<open>operator()\<close>, which may call \<^verbatim>\<open>(*this)(...)\<close> and the object's
  handlers, and the bodies of the handlers, which may call \<^verbatim>\<open>(*this)(...)\<close>.
\<close>

record 'u visitor =
  call_body :: "'u walk \<Rightarrow> 'u visit \<Rightarrow> heap \<Rightarrow> 'u walk"
  visit_body :: "'u walk \<Rightarrow> 'u visit"

definition Visitor :: "'u visitor" where
  "Visitor = \<lparr>call_body = (\<lambda>self visit. Visitor_call visit), visit_body = Visitor_visit\<rparr>"

text \<open>
  \<open>run n V H\<close> is \<^verbatim>\<open>operator()\<close> of an object of class \<open>V\<close> over the store \<open>H\<close>, with
  room for \<open>n\<close> nested entries: each \<^verbatim>\<open>(*this)(...)\<close> made inside a body is bound to the
  same class and has one level less.
\<close>

primrec run :: "nat \<Rightarrow> 'u visitor \<Rightarrow> heap \<Rightarrow> 'u walk" where
  "run 0 V H = (\<lambda>op s. Exhausted)"
| "run (Suc n) V H = call_body V (run n V H) (visit_body V (run n V H)) H"

section \<open>Trees in the store\<close>

text \<open>
  Modelled from the spec: the children of a node, in the declared order of the data
  model. Every child is required but \<open>elseCase\<close>, which is a child only when present.
  A \<open>Call\<close> has no children.
\<close>

fun children :: "ASTNode \<Rightarrow> handle list" where
  "children (ProgramNode fs) = fs"
| "children (FunctionNode b) = [b]"
| "children (StmtSeqNode ss) = ss"
| "children IntegerNode = []"
| "children VarNode = []"
| "children (AssignNode v e) = [v, e]"
| "children (InvokeNode e) = [e]"
| "children (IfThenElseNode c t None) = [c, t]"
| "children (IfThenElseNode c t (Some e)) = [c, t, Some e]"
| "children (WhileNode c b) = [c, b]"
| "children CallNode = []"
| "children (AddNode l r) = [l, r]"
| "children (SubNode l r) = [l, r]"
| "children (MulNode l r) = [l, r]"
| "children (DivNode l r) = [l, r]"
| "children (LTNode l r) = [l, r]"
| "children (LENode l r) = [l, r]"
| "children (GTNode l r) = [l, r]"
| "children (GENode l r) = [l, r]"
| "children (EQNode l r) = [l, r]"
| "children (NENode l r) = [l, r]"
| "children (OtherNode k) = []"

text \<open>The results of \<open>f\<close> on each handle in turn, when every one of them is defined.\<close>

fun gather :: "(handle \<Rightarrow> addr list option) \<Rightarrow> handle list \<Rightarrow> addr list list option" where
  "gather f [] = Some []"
| "gather f (h # hs) =
     (case f h of
        None \<Rightarrow> None
      | Some xs \<Rightarrow> (case gather f hs of None \<Rightarrow> None | Some xss \<Rightarrow> Some (xs # xss)))"

text \<open>
  \<open>subtree n H op = Some ps\<close>: unfolding the store from the handle \<open>op\<close> reaches, within
  \<open>n\<close> levels, only objects whose tag is one of the twenty, through child handles that
  are not empty; \<open>ps\<close> lists the addresses met, a node before its children and the
  children in declared order. The unfolding is finite, so no path from \<open>op\<close> comes back
  to itself. An address reached along two paths is listed twice: the part of the store
  below \<open>op\<close> is a tree exactly when \<open>ps\<close> is \<open>distinct\<close>.
\<close>

primrec subtree :: "nat \<Rightarrow> heap \<Rightarrow> handle \<Rightarrow> addr list option" where
  "subtree 0 H = (\<lambda>op. None)"
| "subtree (Suc n) H =
     (\<lambda>op. case op of
        None \<Rightarrow> None
      | Some p \<Rightarrow>
          (case H p of
             None \<Rightarrow> None
           | Some node \<Rightarrow>
               if recognized (nodeType node)
               then map_option (\<lambda>xss. p # concat xss) (gather (subtree n H) (children node))
               else None))"

text \<open>The tag of the object at an address, and the handler invocations of a list of nodes.\<close>

definition kind_at :: "heap \<Rightarrow> addr \<Rightarrow> ASTNodeType" where
  "kind_at H p = (case H p of None \<Rightarrow> Unrecognized 0 | Some node \<Rightarrow> nodeType node)"

definition visits :: "heap \<Rightarrow> addr list \<Rightarrow> event list" where
  "visits H ps = map (\<lambda>p. Visit (kind_at H p) p) ps"

fun visited :: "event \<Rightarrow> addr" where
  "visited (Visit K p) = p"

text \<open>The exception that a call hands to its caller, if any.\<close>

fun thrown :: "'u outcome \<Rightarrow> exn option" where
  "thrown (Throw e s) = Some e"
| "thrown r = None"

text \<open>The handler invocations recorded when a call ended.\<close>

fun trace_of :: "'u outcome \<Rightarrow> event list option" where
  "trace_of (Return s) = Some (fst s)"
| "trace_of (Throw e s) = Some (fst s)"
| "trace_of (Undefined s) = Some (fst s)"
| "trace_of Exhausted = None"

text \<open>
  \<open>bounded n H op\<close>: every chain of child handles from \<open>op\<close> ends within \<open>n\<close> steps, at
  an empty handle, at an address without object or at a node without children. Nothing
  is asked of the tags, and a required child may be absent.
\<close>

primrec bounded :: "nat \<Rightarrow> heap \<Rightarrow> handle \<Rightarrow> bool" where
  "bounded 0 H = (\<lambda>op. False)"
| "bounded (Suc n) H =
     (\<lambda>op. case op of
        None \<Rightarrow> True
      | Some p \<Rightarrow>
          (case H p of
             None \<Rightarrow> True
           | Some node \<Rightarrow> list_all (bounded n H) (children node)))"

text \<open>
  \<open>below H p q\<close>: the node at \<open>q\<close> is a descendant of the node at \<open>p\<close>, reached from it
  through one or more child handles.
\<close>

inductive below :: "heap \<Rightarrow> addr \<Rightarrow> addr \<Rightarrow> bool" for H :: heap where
  child: "H p = Some node \<Longrightarrow> Some q \<in> set (children node) \<Longrightarrow> below H p q"
| deeper: "H p = Some node \<Longrightarrow> Some r \<in> set (children node) \<Longrightarrow> below H r q \<Longrightarrow> below H p q"

code_pred below .

section \<open>Passes\<close>



text \<open>
  A pass that overrides \<^verbatim>\<open>operator()\<close> alone. The body is given \<^verbatim>\<open>(*this)(...)\<close> and
  the inherited \<^verbatim>\<open>Visitor::operator()(op)\<close>.
\<close>

definition override_call :: "('u walk \<Rightarrow> 'u walk \<Rightarrow> 'u walk) \<Rightarrow> 'u visitor" where
  "override_call oc =
     \<lparr>call_body = (\<lambda>self visit H. oc self (Visitor_call visit H)),
      visit_body = Visitor_visit\<rparr>"



definition work_then_base :: "(handle \<Rightarrow> 'u \<Rightarrow> 'u) \<Rightarrow> 'u walk \<Rightarrow> 'u walk \<Rightarrow> 'u walk" where
  "work_then_base w self base op s = base op (fst s, w op (snd s))"



section \<open>Example stores\<close>

text \<open>\<^verbatim>\<open>Program[Function(StmtSeq[Assign(Var, Add(Var, Integer))])]\<close> at addresses 0 to 7.\<close>

definition S1 :: heap where
  "S1 = map_of
     [(0, ProgramNode [Some 1]), (1, FunctionNode (Some 2)), (2, StmtSeqNode [Some 3]),
      (3, AssignNode (Some 4) (Some 5)), (4, VarNode), (5, AddNode (Some 6) (Some 7)),
      (6, VarNode), (7, IntegerNode)]"

text \<open>\<^verbatim>\<open>IfThenElse(EQ(Var, Integer), Assign(Var, Integer), absent)\<close> at addresses 0 to 6.\<close>

definition S4 :: heap where
  "S4 = map_of
     [(0, IfThenElseNode (Some 1) (Some 4) None), (1, EQNode (Some 2) (Some 3)), (2, VarNode),
      (3, IntegerNode), (4, AssignNode (Some 5) (Some 6)), (5, VarNode), (6, IntegerNode)]"



text \<open>A function without a body, and a node whose tag is outside the twenty below a function.\<close>

definition no_body :: heap where
  "no_body = map_of [(0, FunctionNode None)]"

definition odd_tag :: heap where
  "odd_tag = map_of [(0, FunctionNode (Some 1)), (1, OtherNode 20)]"

text \<open>A node that is both operands of a sum, and a loop whose body is the loop itself.\<close>

definition shared_operand :: heap where
  "shared_operand = map_of [(0, AddNode (Some 1) (Some 1)), (1, VarNode)]"

definition own_body :: heap where
  "own_body = map_of [(0, WhileNode (Some 1) (Some 0)), (1, VarNode)]"

section \<open>The dispatcher and the default handlers\<close>

lemma Visitor_call_known:
  "H p = Some node \<Longrightarrow> recognized (nodeType node) \<Longrightarrow>
   Visitor_call visit H (Some p) s =
     visit (nodeType node) p node (fst s @ [Visit (nodeType node) p], snd s)"
  by (cases "nodeType node") (simp_all add: Visitor_call_def DISPATCH_CASE_def)

lemma Visitor_call_unknown:
  "H p = Some node \<Longrightarrow> \<not> recognized (nodeType node) \<Longrightarrow>
   Visitor_call visit H (Some p) s = Throw (runtime_error ''Unrecognized ASTNodeType'') s"
  by (cases "nodeType node") (simp_all add: Visitor_call_def)

lemma then_do_last: "then_do a Return = a"
  by (auto simp: then_do_def fun_eq_iff split: outcome.splits)

lemma for_each_Nil: "for_each self [] = Return"
  by (simp add: fun_eq_iff)

lemma for_each_Cons: "for_each self (h # hs) = then_do (self h) (for_each self hs)"
  by (auto simp: fun_eq_iff then_do_def split: outcome.splits)

lemma Visitor_visit_children:
  "recognized (nodeType node) \<Longrightarrow>
   Visitor_visit self (nodeType node) p node = for_each self (children node)"
proof (cases node)
  case (IfThenElseNode c t e)
  then show ?thesis
    by (cases e) (simp_all add: for_each_Cons for_each_Nil then_do_last)
qed (simp_all add: VISIT_BINARY_NODE_def for_each_Cons for_each_Nil then_do_last)

section \<open>The default walk of a well-formed part of the store\<close>

lemma for_each_gather:
  assumes "\<And>op xs tr. f op = Some xs \<Longrightarrow> self op (tr, u) = Return (tr @ visits H xs, u)"
    and "gather f hs = Some xss"
  shows "for_each self hs (tr, u) = Return (tr @ visits H (concat xss), u)"
  using assms(2)
proof (induction hs arbitrary: xss tr)
  case Nil
  then show ?case by (simp add: visits_def)
next
  case (Cons h hs)
  then show ?case
    by (auto simp: assms(1) visits_def split: option.splits)
qed

lemma run_subtree:
  "subtree n H op = Some ps \<Longrightarrow> run n Visitor H op (tr, u) = Return (tr @ visits H ps, u)"
proof (induction n arbitrary: op ps tr)
  case 0
  then show ?case by simp
next
  case (Suc n)
  from Suc.prems obtain p node xss where
    op: "op = Some p" and node: "H p = Some node" and rec: "recognized (nodeType node)"
    and g: "gather (subtree n H) (children node) = Some xss" and ps: "ps = p # concat xss"
    by (auto split: option.splits if_splits)
  have "for_each (run n Visitor H) (children node) (tr @ [Visit (nodeType node) p], u)
      = Return ((tr @ [Visit (nodeType node) p]) @ visits H (concat xss), u)"
    by (rule for_each_gather [OF _ g]) (rule Suc.IH)
  moreover have "run (Suc n) Visitor H (Some p) (tr, u)
      = Visitor_visit (run n Visitor H) (nodeType node) p node (tr @ [Visit (nodeType node) p], u)"
    using node rec by (simp add: Visitor_def Visitor_call_known)
  ultimately show ?case
    by (simp add: op ps Visitor_visit_children [OF rec] visits_def kind_at_def node)
qed


lemma gather_cong:
  assumes "\<And>h xs. h \<in> set hs \<Longrightarrow> f h = Some xs \<Longrightarrow> g h = Some xs"
    and "gather f hs = Some xss"
  shows "gather g hs = Some xss"
  using assms
proof (induction hs arbitrary: xss)
  case Nil
  then show ?case by simp
next
  case (Cons h hs)
  from Cons.prems(2) obtain xs yss where
    h: "f h = Some xs" and hs: "gather f hs = Some yss" and xss: "xss = xs # yss"
    by (auto split: option.splits)
  have "g h = Some xs" using Cons.prems(1) h by simp
  moreover have "gather g hs = Some yss" using Cons.IH Cons.prems(1) hs by simp
  ultimately show ?case by (simp add: xss)
qed

lemma gather_nth:
  "gather f hs = Some xss \<Longrightarrow>
   length xss = length hs \<and> (\<forall>i<length hs. f (hs ! i) = Some (xss ! i))"
proof (induction hs arbitrary: xss)
  case Nil
  then show ?case by simp
next
  case (Cons h hs)
  from Cons.prems obtain xs yss where
    h: "f h = Some xs" and hs: "gather f hs = Some yss" and xss: "xss = xs # yss"
    by (auto split: option.splits)
  from Cons.IH [OF hs] show ?case
    by (auto simp: xss h nth_Cons split: nat.splits)
qed

lemma gather_member:
  "gather f hs = Some xss \<Longrightarrow> xs \<in> set xss \<Longrightarrow> \<exists>h\<in>set hs. f h = Some xs"
proof (induction hs arbitrary: xss)
  case Nil
  then show ?case by simp
next
  case (Cons h hs)
  then show ?case by (auto split: option.splits)
qed

lemma subtree_Suc:
  "subtree n H op = Some ps \<Longrightarrow> subtree (Suc n) H op = Some ps"
proof (induction n arbitrary: op ps)
  case 0
  then show ?case by simp
next
  case (Suc n)
  from Suc.prems obtain p node xss where
    op: "op = Some p" and node: "H p = Some node" and rec: "recognized (nodeType node)"
    and g: "gather (subtree n H) (children node) = Some xss" and ps: "ps = p # concat xss"
    by (auto split: option.splits if_splits)
  have "gather (subtree (Suc n) H) (children node) = Some xss"
    by (rule gather_cong [OF _ g]) (rule Suc.IH)
  then show ?case
    using node rec by (simp add: op ps del: subtree.simps(2)) (simp add: node rec)
qed

lemma subtree_mono:
  "subtree n H op = Some ps \<Longrightarrow> n \<le> m \<Longrightarrow> subtree m H op = Some ps"
  by (induction m) (auto simp: le_Suc_eq dest: subtree_Suc simp del: subtree.simps)

lemma subtree_member:
  "subtree n H op = Some ps \<Longrightarrow> N \<in> set ps \<Longrightarrow>
   \<exists>ds. subtree n H (Some N) = Some (N # ds) \<and> set ds \<subseteq> set ps"
proof (induction n arbitrary: op ps)
  case 0
  then show ?case by simp
next
  case (Suc n)
  from Suc.prems(1) obtain p node xss where
    op: "op = Some p" and node: "H p = Some node" and rec: "recognized (nodeType node)"
    and g: "gather (subtree n H) (children node) = Some xss" and ps: "ps = p # concat xss"
    by (auto split: option.splits if_splits)
  show ?case
  proof (cases "N = p")
    case True
    then show ?thesis using Suc.prems(1) by (auto simp: op ps)
  next
    case False
    with Suc.prems(2) obtain xs where xs: "xs \<in> set xss" and N: "N \<in> set xs"
      by (auto simp: ps)
    from gather_member [OF g xs] obtain h where "subtree n H h = Some xs" by blast
    from Suc.IH [OF this N] obtain ds where
      ds: "subtree n H (Some N) = Some (N # ds)" and sub: "set ds \<subseteq> set xs" by blast
    have "set ds \<subseteq> set ps" using sub xs by (auto simp: ps)
    with subtree_Suc [OF ds] show ?thesis by blast
  qed
qed


lemma filter_one_in_distinct:
  "distinct ps \<Longrightarrow> N \<in> set ps \<Longrightarrow> filter (\<lambda>p. p = N) ps = [N]"
  by (induction ps) (auto simp: filter_empty_conv)

lemma visits_filter:
  "visits H (filter P ps) = filter (\<lambda>e. P (visited e)) (visits H ps)"
  by (simp add: visits_def filter_map comp_def)

lemma for_each_append:
  "for_each self (xs @ ys) = then_do (for_each self xs) (for_each self ys)"
  by (induction xs) (auto simp: fun_eq_iff then_do_def split: outcome.splits)

lemma run_Visitor_Suc:
  "run (Suc n) Visitor H = Visitor_call (Visitor_visit (run n Visitor H)) H"
  by (simp add: Visitor_def)

lemma Visitor_call_null: "Visitor_call visit H None s = Undefined s"
  by (simp add: Visitor_call_def)

lemma S1_subtree: "subtree 8 S1 (Some 0) = Some [0, 1, 2, 3, 4, 5, 6, 7]"
  by code_simp

section \<open>Visitation completeness\<close>

text \<open>
  C1. For every finite tree in the store whose nodes all carry one of the twenty tags and
  have their required children (\<open>subtree n H root = Some ps\<close> with \<open>ps\<close> distinct) and
  for every node \<open>N\<close> of it, the default walk from the root, given room for the height of
  the tree or more, returns, and among the handler invocations it made exactly one is on
  \<open>N\<close>: that of the handler of \<open>N\<close>'s own kind.
\<close>

theorem default_walk_invokes_each_handler_once:
  assumes "subtree n H root = Some ps" and "distinct ps" and "N \<in> set ps" and "n \<le> m"
  shows "\<exists>evs. run m Visitor H root (tr, u) = Return (tr @ evs, u)
           \<and> filter (\<lambda>e. visited e = N) evs = [Visit (kind_at H N) N]"
proof -
  from assms(1,4) have "subtree m H root = Some ps" by (rule subtree_mono)
  then have "run m Visitor H root (tr, u) = Return (tr @ visits H ps, u)"
    by (rule run_subtree)
  moreover have "filter (\<lambda>e. visited e = N) (visits H ps) = [Visit (kind_at H N) N]"
    using assms(2,3)
    by (simp add: visits_filter [of H "\<lambda>p. p = N" ps, symmetric] filter_one_in_distinct)
      (simp add: visits_def)
  ultimately show ?thesis by blast
qed

theorem default_walk_invokes_each_handler_once_witness:
  "subtree 8 S1 (Some 0) = Some [0, 1, 2, 3, 4, 5, 6, 7]
   \<and> distinct [0, 1, 2, 3, 4, 5, 6, 7 :: addr]
   \<and> 6 \<in> set [0, 1, 2, 3, 4, 5, 6, 7 :: addr]
   \<and> (8::nat) \<le> 12
   \<and> (\<exists>evs. run 12 Visitor S1 (Some 0) ([], ()) = Return ([] @ evs, ())
         \<and> filter (\<lambda>e. visited e = 6) evs = [Visit Var 6])"
proof -
  have k: "kind_at S1 6 = Var" by (simp add: kind_at_def S1_def)
  have d: "distinct [0, 1, 2, 3, 4, 5, 6, 7 :: addr]" by simp
  have m: "6 \<in> set [0, 1, 2, 3, 4, 5, 6, 7 :: addr]" by simp
  have l: "(8::nat) \<le> 12" by simp
  from default_walk_invokes_each_handler_once [OF S1_subtree d m l, of "[]" "()"]
  show ?thesis using S1_subtree d m by (simp add: k)
qed

lemma concat_visits: "visits H (concat xss) = concat (map (visits H) xss)"
  by (induction xss) (simp_all add: visits_def)

lemma run_Visitor_node:
  assumes "H p = Some node" and "recognized (nodeType node)"
  shows "run (Suc n) Visitor H (Some p) (tr, u) =
     for_each (run n Visitor H) (children node) (tr @ [Visit (nodeType node) p], u)"
  using assms
  by (simp add: run_Visitor_Suc Visitor_call_known Visitor_visit_children del: run.simps)

section \<open>Ordering\<close>

text \<open>
  C2. For every compound node of a default walk, the children are entered in the declared
  order of the data model, and the walk of a child's whole subtree is over before the
  next sibling is entered: what the walk of the node invokes after the node's own handler
  is, child after child in declared order (for \<open>Assign\<close>, \<open>var\<close> then \<open>expr\<close>; for the
  binary nodes, \<open>lhs\<close> then \<open>rhs\<close>), exactly what the walk of that child alone invokes.
\<close>

theorem children_walked_in_declared_order:
  assumes "H p = Some node" and "recognized (nodeType node)"
    and "gather (subtree n H) (children node) = Some xss"
  shows "run (Suc n) Visitor H (Some p) (tr, u) =
           Return (tr @ Visit (nodeType node) p # concat (map (visits H) xss), u)
       \<and> length xss = length (children node)
       \<and> (\<forall>i<length xss. \<forall>tr'. run n Visitor H (children node ! i) (tr', u) =
            Return (tr' @ visits H (xss ! i), u))"
proof -
  have "for_each (run n Visitor H) (children node) (tr @ [Visit (nodeType node) p], u)
      = Return ((tr @ [Visit (nodeType node) p]) @ visits H (concat xss), u)"
    by (rule for_each_gather [OF _ assms(3)]) (rule run_subtree)
  then have "run (Suc n) Visitor H (Some p) (tr, u) =
           Return (tr @ Visit (nodeType node) p # concat (map (visits H) xss), u)"
    using assms(1,2) by (simp add: run_Visitor_node concat_visits del: run.simps)
  moreover from gather_nth [OF assms(3)] have
    "length xss = length (children node)"
    "\<forall>i<length xss. subtree n H (children node ! i) = Some (xss ! i)"
    by simp_all
  ultimately show ?thesis by (simp add: run_subtree)
qed

lemma S1_assign: "gather (subtree 3 S1) (children (AssignNode (Some 4) (Some 5))) = Some [[4], [5, 6, 7]]"
  by code_simp

theorem children_walked_in_declared_order_witness:
  "S1 3 = Some (AssignNode (Some 4) (Some 5))
   \<and> recognized (nodeType (AssignNode (Some 4) (Some 5)))
   \<and> gather (subtree 3 S1) (children (AssignNode (Some 4) (Some 5))) = Some [[4], [5, 6, 7]]
   \<and> run (Suc 3) Visitor S1 (Some 3) ([], ()) =
        Return ([Visit Assign 3, Visit Var 4, Visit Add 5, Visit Var 6, Visit Integer 7], ())
   \<and> run 3 Visitor S1 (Some 4) ([], ()) = Return ([Visit Var 4], ())
   \<and> run 3 Visitor S1 (Some 5) ([Visit Var 4], ()) =
        Return ([Visit Var 4, Visit Add 5, Visit Var 6, Visit Integer 7], ())"
proof -
  have a: "S1 3 = Some (AssignNode (Some 4) (Some 5))" by (simp add: S1_def)
  have b: "recognized (nodeType (AssignNode (Some 4) (Some 5)))" by simp
  have v: "visits S1 [4] = [Visit Var 4]" "visits S1 [5, 6, 7] = [Visit Add 5, Visit Var 6, Visit Integer 7]"
    by (simp_all add: visits_def kind_at_def S1_def)
  note t = children_walked_in_declared_order
    [of S1 3 "AssignNode (Some 4) (Some 5)" 3 "[[4], [5, 6, 7]]" "[]" "()", OF a b S1_assign]
  from t have "run (Suc 3) Visitor S1 (Some 3) ([], ()) =
        Return ([Visit Assign 3, Visit Var 4, Visit Add 5, Visit Var 6, Visit Integer 7], ())"
    by (simp add: v del: run.simps)
  moreover from t have c: "\<And>i tr'. i < 2 \<Longrightarrow> run 3 Visitor S1 ([Some 4, Some 5] ! i) (tr', ()) =
            Return (tr' @ visits S1 ([[4], [5, 6, 7]] ! i), ())"
    by (simp del: run.simps)
  from c [of 0 "[]"] c [of 1 "[Visit Var 4]"]
  have "run 3 Visitor S1 (Some 4) ([], ()) = Return ([Visit Var 4], ())"
    "run 3 Visitor S1 (Some 5) ([Visit Var 4], ()) =
        Return ([Visit Var 4, Visit Add 5, Visit Var 6, Visit Integer 7], ())"
    using v by (simp_all del: run.simps)
  ultimately show ?thesis using a b S1_assign by simp
qed

section \<open>Absent children\<close>

lemma run_Visitor_null: "run (Suc n) Visitor H None s = Undefined s"
  by (simp add: run_Visitor_Suc Visitor_call_null del: run.simps)

lemma for_each_stops_at_null:
  assumes "for_each (run (Suc n) Visitor H) pre s = Return s1"
  shows "for_each (run (Suc n) Visitor H) (pre @ None # post) s = Undefined s1"
  using assms
  by (simp add: for_each_append then_do_def run_Visitor_null del: run.simps)

text \<open>
  C3, as the code has it. When a default handler reaches a required child whose handle is
  empty (any child but the optional \<open>elseCase\<close>), it hands the empty handle to the entry
  operation, which reads the tag through it unchecked. The earlier siblings have been
  walked; at the absent child the behaviour is undefined: no exception is thrown or handed
  to the caller, no default is put in the child's place and the later siblings are not
  walked.
\<close>

theorem absent_required_child_is_undefined:
  assumes "H p = Some node" and "recognized (nodeType node)"
    and "children node = pre @ None # post"
    and "for_each (run (Suc n) Visitor H) pre (tr @ [Visit (nodeType node) p], u) = Return s1"
  shows "run (Suc (Suc n)) Visitor H (Some p) (tr, u) = Undefined s1
       \<and> thrown (run (Suc (Suc n)) Visitor H (Some p) (tr, u)) = None"
proof -
  have "run (Suc (Suc n)) Visitor H (Some p) (tr, u) =
     for_each (run (Suc n) Visitor H) (pre @ None # post) (tr @ [Visit (nodeType node) p], u)"
    using assms(1,2,3) by (simp add: run_Visitor_node del: run.simps)
  also have "\<dots> = Undefined s1"
    using assms(4) by (rule for_each_stops_at_null)
  finally show ?thesis by simp
qed

theorem absent_required_child_is_undefined_witness:
  "no_body 0 = Some (FunctionNode None)
   \<and> recognized (nodeType (FunctionNode None))
   \<and> children (FunctionNode None) = [] @ None # []
   \<and> for_each (run (Suc 0) Visitor no_body) [] ([] @ [Visit (nodeType (FunctionNode None)) 0], ())
        = Return ([Visit Function 0], ())
   \<and> run (Suc (Suc 0)) Visitor no_body (Some 0) ([], ()) = Undefined ([Visit Function 0], ())
   \<and> thrown (run (Suc (Suc 0)) Visitor no_body (Some 0) ([], ())) = None"
proof -
  have a: "no_body 0 = Some (FunctionNode None)" by (simp add: no_body_def)
  have b: "recognized (nodeType (FunctionNode None))" by simp
  have c: "children (FunctionNode None) = [] @ None # []" by simp
  have d: "for_each (run (Suc 0) Visitor no_body) []
      ([] @ [Visit (nodeType (FunctionNode None)) 0], ()) = Return ([Visit Function 0], ())"
    by simp
  from absent_required_child_is_undefined
    [of no_body 0 "FunctionNode None" "[]" "[]" 0 "[]" "()" "([Visit Function 0], ())", OF a b c d]
  show ?thesis using a b c d by simp
qed

text \<open>
  C3, as the claim has it, fails: the walk of a function whose body is absent hands no
  error to its caller.
\<close>

theorem absent_required_child_counterexample:
  "thrown (run 2 Visitor no_body (Some 0) ([], ())) = None
   \<and> run 2 Visitor no_body (Some 0) ([], ()) = Undefined ([Visit Function 0], ())"
  by code_simp

text \<open>
  C5. The default walk of a well-formed part of the store that contains an \<open>IfThenElse\<close>
  whose \<open>elseCase\<close> is absent returns; the handler of that node walks \<open>cond\<close>, then
  \<open>thenCase\<close>, and nothing else: no handler invocation comes from the absent branch.
\<close>

theorem absent_else_is_skipped:
  assumes "subtree n H root = Some ps" and "N \<in> set ps"
    and "H N = Some (IfThenElseNode c t None)"
  shows "run n Visitor H root (tr, u) = Return (tr @ visits H ps, u)
       \<and> (\<exists>cs ts. subtree n H c = Some cs \<and> subtree n H t = Some ts
            \<and> (\<forall>tr'. run (Suc n) Visitor H (Some N) (tr', u) =
                 Return (tr' @ Visit IfThenElse N # visits H cs @ visits H ts, u)))"
proof -
  from subtree_member [OF assms(1,2)] obtain ds where
    ds: "subtree n H (Some N) = Some (N # ds)" by blast
  then obtain m where n: "n = Suc m" by (cases n) simp_all
  from ds obtain cs ts where
    c: "subtree m H c = Some cs" and t: "subtree m H t = Some ts"
    by (auto simp: n assms(3) split: option.splits)
  have c': "subtree n H c = Some cs" and t': "subtree n H t = Some ts"
    using c t by (simp_all add: n subtree_Suc del: subtree.simps)
  have "run (Suc n) Visitor H (Some N) (tr', u) =
      Return (tr' @ Visit IfThenElse N # visits H cs @ visits H ts, u)" for tr'
    using assms(3) c' t'
    by (simp add: run_Visitor_node run_subtree del: run.simps subtree.simps)
  then have "\<forall>tr'. run (Suc n) Visitor H (Some N) (tr', u) =
      Return (tr' @ Visit IfThenElse N # visits H cs @ visits H ts, u)" by blast
  moreover have "run n Visitor H root (tr, u) = Return (tr @ visits H ps, u)"
    using assms(1) by (rule run_subtree)
  ultimately show ?thesis using c' t' by blast
qed

lemma S4_subtree: "subtree 4 S4 (Some 0) = Some [0, 1, 2, 3, 4, 5, 6]"
  by code_simp

theorem absent_else_is_skipped_witness:
  "subtree 4 S4 (Some 0) = Some [0, 1, 2, 3, 4, 5, 6]
   \<and> 0 \<in> set [0, 1, 2, 3, 4, 5, 6 :: addr]
   \<and> S4 0 = Some (IfThenElseNode (Some 1) (Some 4) None)
   \<and> run 4 Visitor S4 (Some 0) ([], ()) =
       Return ([Visit IfThenElse 0, Visit EQ 1, Visit Var 2, Visit Integer 3,
                Visit Assign 4, Visit Var 5, Visit Integer 6], ())"
proof -
  have a: "0 \<in> set [0, 1, 2, 3, 4, 5, 6 :: addr]" by simp
  have b: "S4 0 = Some (IfThenElseNode (Some 1) (Some 4) None)" by (simp add: S4_def)
  have v: "visits S4 [0, 1, 2, 3, 4, 5, 6] =
      [Visit IfThenElse 0, Visit EQ 1, Visit Var 2, Visit Integer 3,
       Visit Assign 4, Visit Var 5, Visit Integer 6]"
    by (simp add: visits_def kind_at_def S4_def)
  from absent_else_is_skipped
    [of 4 S4 "Some 0" "[0, 1, 2, 3, 4, 5, 6]" 0 "Some 1" "Some 4" "[]" "()", OF S4_subtree a b]
  have "run 4 Visitor S4 (Some 0) ([], ()) = Return ([] @ visits S4 [0, 1, 2, 3, 4, 5, 6], ())"
    by blast
  then show ?thesis using S4_subtree a b v by simp
qed

section \<open>What every default walk does\<close>

lemma for_each_extends:
  assumes "\<And>h tr u tr'. trace_of (self h (tr, u)) = Some tr' \<Longrightarrow> \<exists>evs. tr' = tr @ evs"
  shows "trace_of (for_each self hs (tr, u)) = Some tr' \<Longrightarrow> \<exists>evs. tr' = tr @ evs"
proof (induction hs arbitrary: tr u)
  case Nil
  then show ?case by simp
next
  case (Cons h hs)
  show ?case
  proof (cases "self h (tr, u)")
    case (Return s1)
    obtain tr1 u1 where s1: "s1 = (tr1, u1)" by (cases s1)
    from assms [of h tr u tr1] Return obtain evs1 where tr1: "tr1 = tr @ evs1"
      by (auto simp: s1)
    from Cons.prems Return have "trace_of (for_each self hs (tr1, u1)) = Some tr'"
      by (simp add: s1)
    from Cons.IH [OF this] obtain evs where "tr' = tr1 @ evs" by blast
    then show ?thesis by (simp add: tr1)
  next
    case (Throw e s1)
    with Cons.prems assms [of h tr u tr'] show ?thesis by simp
  next
    case (Undefined s1)
    with Cons.prems assms [of h tr u tr'] show ?thesis by simp
  next
    case Exhausted
    with Cons.prems show ?thesis by simp
  qed
qed

lemma run_Visitor_extends:
  "trace_of (run n Visitor H op (tr, u)) = Some tr' \<Longrightarrow> \<exists>evs. tr' = tr @ evs"
proof (induction n arbitrary: op tr u tr')
  case 0
  then show ?case by simp
next
  case (Suc n)
  show ?case
  proof (cases op)
    case None
    with Suc.prems show ?thesis by (simp add: run_Visitor_null del: run.simps)
  next
    case (Some p)
    show ?thesis
    proof (cases "H p")
      case None
      with Suc.prems Some show ?thesis
        by (simp add: run_Visitor_Suc Visitor_call_def del: run.simps)
    next
      case node: (Some node)
      show ?thesis
      proof (cases "recognized (nodeType node)")
        case True
        with Suc.prems Some node
        have "trace_of (for_each (run n Visitor H) (children node)
            (tr @ [Visit (nodeType node) p], u)) = Some tr'"
          by (simp add: run_Visitor_node del: run.simps)
        then have "\<exists>evs. tr' = (tr @ [Visit (nodeType node) p]) @ evs"
          by (rule for_each_extends [where self = "run n Visitor H", rotated]) (rule Suc.IH)
        then show ?thesis by auto
      next
        case False
        with Suc.prems Some node show ?thesis
          by (simp add: run_Visitor_Suc Visitor_call_unknown del: run.simps)
      qed
    qed
  qed
qed

lemma for_each_not_Exhausted:
  assumes "\<And>h s. h \<in> set hs \<Longrightarrow> self h s \<noteq> Exhausted"
  shows "for_each self hs s \<noteq> Exhausted"
  using assms
proof (induction hs arbitrary: s)
  case Nil
  then show ?case by simp
next
  case (Cons h hs)
  have "self h s \<noteq> Exhausted" by (rule Cons.prems) simp
  moreover have "for_each self hs s' \<noteq> Exhausted" for s'
    by (rule Cons.IH) (rule Cons.prems, simp)
  ultimately show ?case by (cases "self h s") simp_all
qed

lemma run_bounded:
  "bounded n H op \<Longrightarrow> run n Visitor H op (s :: 'a state) \<noteq> Exhausted"
proof (induction n arbitrary: op s)
  case 0
  then show ?case by simp
next
  case (Suc n)
  obtain tr u where s: "s = (tr, u)" by (cases s)
  show ?case
  proof (cases op)
    case None
    then show ?thesis by (simp add: run_Visitor_null del: run.simps)
  next
    case (Some p)
    show ?thesis
    proof (cases "H p")
      case None
      with Some show ?thesis by (simp add: run_Visitor_Suc Visitor_call_def del: run.simps)
    next
      case node: (Some node)
      show ?thesis
      proof (cases "recognized (nodeType node)")
        case True
        from Suc.prems Some node have "list_all (bounded n H) (children node)" by simp
        then have "run n Visitor H h s' \<noteq> Exhausted" if "h \<in> set (children node)"
          for h and s' :: "'a state"
          using that Suc.IH [of h s'] by (simp add: list_all_iff)
        then have "for_each (run n Visitor H) (children node) (tr @ [Visit (nodeType node) p], u)
            \<noteq> Exhausted"
          by (rule for_each_not_Exhausted)
        with True Some node show ?thesis
          by (simp add: s run_Visitor_node del: run.simps)
      next
        case False
        with Some node show ?thesis
          by (simp add: run_Visitor_Suc Visitor_call_unknown del: run.simps)
      qed
    qed
  qed
qed

lemma bounded_Suc: "bounded n H op \<Longrightarrow> bounded (Suc n) H op"
proof (induction n arbitrary: op)
  case 0
  then show ?case by simp
next
  case (Suc n)
  show ?case
  proof (cases op)
    case None
    then show ?thesis by simp
  next
    case (Some p)
    show ?thesis
    proof (cases "H p")
      case None
      with Some show ?thesis by simp
    next
      case node: (Some node)
      from Suc.prems Some node have "list_all (bounded n H) (children node)" by simp
      then have "list_all (bounded (Suc n) H) (children node)"
        using Suc.IH by (simp add: list_all_iff del: bounded.simps)
      with Some node show ?thesis by (simp del: bounded.simps(2)) simp
    qed
  qed
qed

lemma bounded_mono: "bounded n H op \<Longrightarrow> n \<le> m \<Longrightarrow> bounded m H op"
  by (induction m) (auto simp: le_Suc_eq dest: bounded_Suc simp del: bounded.simps)

lemma gather_list_all:
  assumes "\<And>h xs. f h = Some xs \<Longrightarrow> P h"
  shows "gather f hs = Some xss \<Longrightarrow> list_all P hs"
  by (induction hs arbitrary: xss) (auto split: option.splits dest: assms)

lemma subtree_bounded: "subtree n H op = Some ps \<Longrightarrow> bounded n H op"
proof (induction n arbitrary: op ps)
  case 0
  then show ?case by simp
next
  case (Suc n)
  from Suc.prems obtain p node xss where
    op: "op = Some p" and node: "H p = Some node"
    and g: "gather (subtree n H) (children node) = Some xss"
    by (auto split: option.splits if_splits)
  have "list_all (bounded n H) (children node)"
    by (rule gather_list_all [OF _ g]) (rule Suc.IH)
  then show ?case by (simp add: op node)
qed

section \<open>Unknown kinds\<close>

lemma for_each_Throw:
  "for_each self hs s = Throw e s' \<Longrightarrow> \<exists>h\<in>set hs. \<exists>s1. self h s1 = Throw e s'"
proof (induction hs arbitrary: s)
  case Nil
  then show ?case by simp
next
  case (Cons h hs)
  show ?case
  proof (cases "self h s")
    case (Return s1)
    with Cons.prems have "for_each self hs s1 = Throw e s'" by simp
    from Cons.IH [OF this] obtain h' where "h' \<in> set hs" and "\<exists>s1. self h' s1 = Throw e s'"
      by blast
    then show ?thesis by (intro bexI [of _ h']) simp_all
  next
    case (Throw e1 s1)
    with Cons.prems have "self h s = Throw e s'" by simp
    then have "\<exists>s1. self h s1 = Throw e s'" by (rule exI)
    then show ?thesis by (rule bexI) simp
  next
    case (Undefined s1)
    with Cons.prems show ?thesis by simp
  next
    case Exhausted
    with Cons.prems show ?thesis by simp
  qed
qed

lemma run_Visitor_null_not_Throw: "run n Visitor H None s \<noteq> Throw e s'"
  by (cases n) (simp_all add: run_Visitor_null del: run.simps(2))

lemma throw_origin:
  "run n Visitor H (Some p) s = Throw e s' \<Longrightarrow>
   e = runtime_error ''Unrecognized ASTNodeType''
   \<and> (\<exists>q node'. (q = p \<and> s' = s \<or> below H p q) \<and> H q = Some node'
         \<and> \<not> recognized (nodeType node'))"
proof (induction n arbitrary: p s)
  case 0
  then show ?case by simp
next
  case (Suc n)
  obtain tr u where s: "s = (tr, u)" by (cases s)
  show ?case
  proof (cases "H p")
    case None
    with Suc.prems show ?thesis
      by (simp add: run_Visitor_Suc Visitor_call_def del: run.simps)
  next
    case node: (Some node)
    show ?thesis
    proof (cases "recognized (nodeType node)")
      case False
      with Suc.prems node show ?thesis
        by (auto simp: run_Visitor_Suc Visitor_call_unknown simp del: run.simps)
    next
      case True
      with Suc.prems node
      have "for_each (run n Visitor H) (children node) (tr @ [Visit (nodeType node) p], u)
          = Throw e s'"
        by (simp add: s run_Visitor_node del: run.simps)
      from for_each_Throw [OF this] obtain h s1 where
        h: "h \<in> set (children node)" and t: "run n Visitor H h s1 = Throw e s'" by blast
      from t obtain r where r: "h = Some r"
        by (cases h) (simp_all add: run_Visitor_null_not_Throw)
      from Suc.IH [OF t [unfolded r]] obtain q node' where
        e: "e = runtime_error ''Unrecognized ASTNodeType''"
        and q: "q = r \<and> s' = s1 \<or> below H r q" and n': "H q = Some node'"
        and u: "\<not> recognized (nodeType node')" by blast
      from q have "below H p q"
      proof
        assume "q = r \<and> s' = s1"
        with node h r show ?thesis by (auto intro: below.child)
      next
        assume "below H r q"
        with node h r show ?thesis by (auto intro: below.deeper)
      qed
      with e n' u show ?thesis by blast
    qed
  qed
qed

text \<open>
  C4, as the code has it. At a node, the entry operation takes its unknown-kind branch
  exactly when the tag is not one of the twenty: the default walk of the node throws
  \<^verbatim>\<open>runtime_error\<close> in the very state it was entered in, no handler invoked, if and only
  if the tag is not one of the twenty. With such a tag the entry operation throws so
  whatever the handlers are, and nothing is walked from the node. With a tag among the
  twenty the outcome of the entry operation is the outcome of the selected handler: the
  unknown-kind branch is not reached. In a default walk such a node fails only with the
  error of the unknown-kind branch, and only when that error was raised below it, at a
  descendant whose tag is not one of the twenty, and came out of the entry operation
  applied to one of its children.
\<close>

theorem unknown_kind_detection:
  assumes "H p = Some node"
  shows "(run (Suc n) Visitor H (Some p) (tr, u) =
            Throw (runtime_error ''Unrecognized ASTNodeType'') (tr, u)
          \<longleftrightarrow> \<not> recognized (nodeType node))
       \<and> (\<not> recognized (nodeType node) \<longrightarrow>
            Visitor_call visit H (Some p) s = Throw (runtime_error ''Unrecognized ASTNodeType'') s)
       \<and> (recognized (nodeType node) \<longrightarrow>
            Visitor_call visit H (Some p) s =
              visit (nodeType node) p node (fst s @ [Visit (nodeType node) p], snd s))
       \<and> (recognized (nodeType node) \<longrightarrow>
            (\<forall>e s'. run (Suc n) Visitor H (Some p) (tr, u) = Throw e s' \<longrightarrow>
               e = runtime_error ''Unrecognized ASTNodeType''
               \<and> (\<exists>q node'. below H p q \<and> H q = Some node' \<and> \<not> recognized (nodeType node'))
               \<and> (\<exists>h\<in>set (children node). \<exists>s1. run n Visitor H h s1 = Throw e s')))"
proof (cases "recognized (nodeType node)")
  case True
  have "run (Suc n) Visitor H (Some p) (tr, u) \<noteq> Throw e (tr, u)" for e
  proof
    assume "run (Suc n) Visitor H (Some p) (tr, u) = Throw e (tr, u)"
    with assms True
    have "trace_of (for_each (run n Visitor H) (children node)
        (tr @ [Visit (nodeType node) p], u)) = Some tr"
      by (simp add: run_Visitor_node del: run.simps)
    then have "\<exists>evs. tr = (tr @ [Visit (nodeType node) p]) @ evs"
      by (rule for_each_extends [where self = "run n Visitor H", rotated])
        (rule run_Visitor_extends)
    then show False by simp
  qed
  moreover have "e = runtime_error ''Unrecognized ASTNodeType''
      \<and> (\<exists>q node'. below H p q \<and> H q = Some node' \<and> \<not> recognized (nodeType node'))
      \<and> (\<exists>h\<in>set (children node). \<exists>s1. run n Visitor H h s1 = Throw e s')"
    if t: "run (Suc n) Visitor H (Some p) (tr, u) = Throw e s'" for e s'
  proof -
    from throw_origin [OF t] obtain q node' where
      e: "e = runtime_error ''Unrecognized ASTNodeType''"
      and q: "q = p \<and> s' = (tr, u) \<or> below H p q" and n': "H q = Some node'"
      and u: "\<not> recognized (nodeType node')" by blast
    from q n' u assms True have "below H p q" by auto
    moreover from t assms True
    have "for_each (run n Visitor H) (children node) (tr @ [Visit (nodeType node) p], u)
        = Throw e s'"
      by (simp add: run_Visitor_node del: run.simps)
    then have "\<exists>h\<in>set (children node). \<exists>s1. run n Visitor H h s1 = Throw e s'"
      by (rule for_each_Throw)
    ultimately show ?thesis using e n' u by blast
  qed
  ultimately show ?thesis
    using assms True by (simp add: Visitor_call_known del: run.simps)
next
  case False
  with assms show ?thesis
    by (simp add: Visitor_call_unknown run_Visitor_Suc del: run.simps)
qed

theorem unknown_kind_detection_witness:
  "odd_tag 1 = Some (OtherNode 20)
   \<and> \<not> recognized (nodeType (OtherNode 20))
   \<and> run (Suc 0) Visitor odd_tag (Some 1) ([Visit Function 0], ()) =
       Throw (runtime_error ''Unrecognized ASTNodeType'') ([Visit Function 0], ())
   \<and> S1 4 = Some VarNode
   \<and> recognized (nodeType VarNode)
   \<and> Visitor_call (Visitor_visit (run 0 Visitor S1)) S1 (Some 4) ([], ()) =
       Return ([Visit Var 4], ())
   \<and> odd_tag 0 = Some (FunctionNode (Some 1))
   \<and> recognized (nodeType (FunctionNode (Some 1)))
   \<and> run (Suc 1) Visitor odd_tag (Some 0) ([], ()) =
       Throw (runtime_error ''Unrecognized ASTNodeType'') ([Visit Function 0], ())
   \<and> (\<exists>q node'. below odd_tag 0 q \<and> odd_tag q = Some node' \<and> \<not> recognized (nodeType node'))"
proof -
  have a: "odd_tag 1 = Some (OtherNode 20)" by (simp add: odd_tag_def)
  have b: "S1 4 = Some VarNode" by (simp add: S1_def)
  have c: "odd_tag 0 = Some (FunctionNode (Some 1))" by (simp add: odd_tag_def)
  have t: "run (Suc 1) Visitor odd_tag (Some 0) ([], ()) =
       Throw (runtime_error ''Unrecognized ASTNodeType'') ([Visit Function 0], ())"
    by code_simp
  from unknown_kind_detection
    [of odd_tag 1 "OtherNode 20" 0 "[Visit Function 0]" "()" "Visitor_visit (run 0 Visitor odd_tag)"
       "([Visit Function 0], ())", OF a]
  have "run (Suc 0) Visitor odd_tag (Some 1) ([Visit Function 0], ()) =
       Throw (runtime_error ''Unrecognized ASTNodeType'') ([Visit Function 0], ())"
    by (simp del: run.simps)
  moreover from unknown_kind_detection
    [of S1 4 VarNode 0 "[]" "()" "Visitor_visit (run 0 Visitor S1)" "([], ())", OF b]
  have "Visitor_call (Visitor_visit (run 0 Visitor S1)) S1 (Some 4) ([], ()) =
       Return ([Visit Var 4], ())"
    by simp
  moreover from unknown_kind_detection
    [of odd_tag 0 "FunctionNode (Some 1)" 1 "[]" "()" "Visitor_visit (run 0 Visitor odd_tag)"
       "([], ())", OF c] t
  have "\<exists>q node'. below odd_tag 0 q \<and> odd_tag q = Some node' \<and> \<not> recognized (nodeType node')"
    by (simp del: run.simps)
  ultimately show ?thesis using a b c t by simp
qed

text \<open>
  C4, as the claim has it, fails in one direction: the entry operation applied to a
  function whose body carries a tag outside the twenty ends with the same error, thrown
  below it after its own handler was invoked, although \<open>Function\<close> is one of the twenty.
\<close>

theorem unknown_kind_counterexample:
  "odd_tag 0 = Some (FunctionNode (Some 1))
   \<and> recognized (nodeType (FunctionNode (Some 1)))
   \<and> run 2 Visitor odd_tag (Some 0) ([], ()) =
       Throw (runtime_error ''Unrecognized ASTNodeType'') ([Visit Function 0], ())"
  by code_simp

section \<open>Leaves\<close>

text \<open>
  C7. The default handlers of \<open>Call\<close>, \<open>Integer\<close> and \<open>Var\<close> walk no children: they return
  at once, whatever the entry operation is, and the default walk of such a node invokes
  the handler of the node and nothing below it.
\<close>

theorem leaf_handlers_walk_nothing:
  assumes "H p = Some node" and "node = CallNode \<or> node = IntegerNode \<or> node = VarNode"
  shows "Visitor_visit self (nodeType node) p node s = Return s
       \<and> run (Suc n) Visitor H (Some p) (tr, u) = Return (tr @ [Visit (nodeType node) p], u)"
  using assms by (auto simp: run_Visitor_Suc Visitor_call_known simp del: run.simps)

theorem leaf_handlers_walk_nothing_witness:
  "S1 7 = Some IntegerNode
   \<and> (IntegerNode = CallNode \<or> IntegerNode = IntegerNode \<or> IntegerNode = VarNode)
   \<and> Visitor_visit (run 5 Visitor S1) Integer 7 IntegerNode ([], ()) = Return ([], ())
   \<and> run (Suc 0) Visitor S1 (Some 7) ([], ()) = Return ([Visit Integer 7], ())"
proof -
  have a: "S1 7 = Some IntegerNode" by (simp add: S1_def)
  have b: "IntegerNode = CallNode \<or> IntegerNode = IntegerNode \<or> IntegerNode = VarNode" by simp
  from leaf_handlers_walk_nothing
    [of S1 7 IntegerNode "run 5 Visitor S1" "([], ())" 0 "[]" "()", OF a b]
  show ?thesis using a by (simp del: run.simps)
qed

section \<open>Termination\<close>

text \<open>
  C8. Over a finite part of the store without cycles (every chain of child handles from
  the root ends within \<open>n\<close> steps) the default walk terminates: with room for \<open>n\<close> nested
  entries, and with any more, the walk comes to an end, and when moreover the tags are
  among the twenty and the required children present, it returns. Sharing does no harm
  here, so trees are covered.
\<close>

theorem default_walk_terminates:
  assumes "bounded n H root" and "n \<le> m"
  shows "run m Visitor H root (tr, u) \<noteq> Exhausted
       \<and> (\<forall>ps. subtree n H root = Some ps \<longrightarrow>
            run m Visitor H root (tr, u) = Return (tr @ visits H ps, u))"
proof -
  from assms have "bounded m H root" by (rule bounded_mono)
  then have "run m Visitor H root (tr, u) \<noteq> Exhausted" by (rule run_bounded)
  moreover have "run m Visitor H root (tr, u) = Return (tr @ visits H ps, u)"
    if "subtree n H root = Some ps" for ps
  proof -
    from that assms(2) have "subtree m H root = Some ps" by (rule subtree_mono)
    then show ?thesis by (rule run_subtree)
  qed
  ultimately show ?thesis by blast
qed

lemma S1_bounded: "bounded 8 S1 (Some 0)"
  using S1_subtree by (rule subtree_bounded)

theorem default_walk_terminates_witness:
  "bounded 8 S1 (Some 0) \<and> (8::nat) \<le> 100
   \<and> run 100 Visitor S1 (Some 0) ([], ()) \<noteq> Exhausted
   \<and> subtree 8 S1 (Some 0) = Some [0, 1, 2, 3, 4, 5, 6, 7]
   \<and> run 100 Visitor S1 (Some 0) ([], ()) =
       Return ([Visit Program 0, Visit Function 1, Visit StmtSeq 2, Visit Assign 3,
                Visit Var 4, Visit Add 5, Visit Var 6, Visit Integer 7], ())"
proof -
  have a: "(8::nat) \<le> 100" by simp
  have v: "visits S1 [0, 1, 2, 3, 4, 5, 6, 7] =
      [Visit Program 0, Visit Function 1, Visit StmtSeq 2, Visit Assign 3,
       Visit Var 4, Visit Add 5, Visit Var 6, Visit Integer 7]"
    by (simp add: visits_def kind_at_def S1_def)
  from default_walk_terminates [OF S1_bounded a, of "[]" "()"]
  show ?thesis using S1_bounded S1_subtree v by simp
qed

text \<open>
  The hypothesis matters. Where a loop is its own body the walk never returns, whatever
  room it is given; and a node that is both operands of a sum has its handler invoked
  twice.
\<close>

lemma own_body_never_returns: "run n Visitor own_body (Some 0) (tr, u) = Exhausted"
proof (induction n arbitrary: tr)
  case 0
  show ?case by simp
next
  case (Suc n)
  have a: "own_body 0 = Some (WhileNode (Some 1) (Some 0))" by (simp add: own_body_def)
  have b: "own_body 1 = Some VarNode" by (simp add: own_body_def)
  have c: "run n Visitor own_body (Some 1) (tr', u) = Exhausted \<or>
      run n Visitor own_body (Some 1) (tr', u) = Return (tr' @ [Visit Var 1], u)" for tr'
  proof (cases n)
    case 0
    then show ?thesis by simp
  next
    case (Suc k)
    then show ?thesis using b by (simp add: run_Visitor_node del: run.simps)
  qed
  show ?case
    using a c [of "tr @ [Visit While 0]"]
    by (auto simp: run_Visitor_node Suc.IH simp del: run.simps)
qed

lemma shared_operand_visited_twice:
  "run 2 Visitor shared_operand (Some 0) ([], ()) = Return ([Visit Add 0, Visit Var 1, Visit Var 1], ())"
  by code_simp

section \<open>The empty handle\<close>

text \<open>
  C9. The entry operation makes no check of its argument: given an empty handle it reads
  the tag through it at once, which is undefined; it throws nothing there and invokes no
  handler. Whenever the entry operation throws, be it from its own unknown-kind branch or
  out of a handler, the tag was read first: the handle was not empty and pointed at an
  object.
\<close>

theorem null_entry_handle_is_dereferenced:
  "Visitor_call visit H None s = Undefined s
   \<and> run (Suc n) Visitor H None s = Undefined s
   \<and> thrown (run (Suc n) Visitor H None s) = None
   \<and> (\<forall>e s'. Visitor_call visit H op s = Throw e s' \<longrightarrow> (\<exists>p node. op = Some p \<and> H p = Some node))"
  by (auto simp: run_Visitor_null Visitor_call_null Visitor_call_def simp del: run.simps
      split: option.splits)

theorem null_entry_handle_is_dereferenced_witness:
  "Visitor_call (Visitor_visit (run 0 Visitor odd_tag)) odd_tag None ([], ()) = Undefined ([], ())
   \<and> run (Suc 0) Visitor odd_tag None ([], ()) = Undefined ([], ())
   \<and> thrown (run (Suc 0) Visitor odd_tag None ([], ())) = None
   \<and> Visitor_call (Visitor_visit (run 0 Visitor odd_tag)) odd_tag (Some 1) ([], ())
        = Throw (runtime_error ''Unrecognized ASTNodeType'') ([], ())
   \<and> (\<exists>p node. Some (1::addr) = Some p \<and> odd_tag p = Some node)"
proof -
  have t: "Visitor_call (Visitor_visit (run 0 Visitor odd_tag)) odd_tag (Some 1) ([], ())
        = Throw (runtime_error ''Unrecognized ASTNodeType'') ([], ())"
    by (simp add: Visitor_call_def odd_tag_def)
  from null_entry_handle_is_dereferenced
    [of "Visitor_visit (run 0 Visitor odd_tag)" odd_tag "([], ())" 0 "Some 1"] t
  show ?thesis by (simp del: run.simps)
qed

section \<open>Walks of passes\<close>

lemma for_each_gather_fold:
  assumes "\<And>op xs tr u. f op = Some xs \<Longrightarrow>
      self op (tr, u) = Return (tr @ visits H xs, fold w (map Some xs) u)"
    and "gather f hs = Some xss"
  shows "for_each self hs (tr, u) =
      Return (tr @ visits H (concat xss), fold w (map Some (concat xss)) u)"
  using assms(2)
proof (induction hs arbitrary: xss tr u)
  case Nil
  then show ?case by (simp add: visits_def)
next
  case (Cons h hs)
  then show ?case
    by (auto simp: assms(1) visits_def split: option.splits)
qed

lemma run_override_call_Suc:
  "run (Suc n) (override_call oc) H =
     oc (run n (override_call oc) H) (Visitor_call (Visitor_visit (run n (override_call oc) H)) H)"
  by (simp add: override_call_def)

text \<open>
  C10. The default handlers descend through the entry operation of the object and through
  nothing else: each of them is the entry operation applied to the children in turn.
  So a pass that overrides the entry operation, here with work \<open>w\<close> on its own fields
  before the inherited dispatch, has that work done at every node of the tree, in the
  order of the walk, and not at the root alone.
\<close>

theorem entry_override_applies_at_every_node:
  assumes "subtree n H root = Some ps"
  shows "run n (override_call (work_then_base w)) H root (tr, u) =
           Return (tr @ visits H ps, fold w (map Some ps) u)
       \<and> (\<forall>p\<in>set ps. \<forall>node. H p = Some node \<longrightarrow>
            (\<forall>self. Visitor_visit self (nodeType node) p node = for_each self (children node)))"
proof -
  have "run n (override_call (work_then_base w)) H root (tr, u) =
           Return (tr @ visits H ps, fold w (map Some ps) u)"
    using assms
  proof (induction n arbitrary: root ps tr u)
    case 0
    then show ?case by simp
  next
    case (Suc n)
    let ?self = "run n (override_call (work_then_base w)) H"
    from Suc.prems obtain p node xss where
      op: "root = Some p" and node: "H p = Some node" and rec: "recognized (nodeType node)"
      and g: "gather (subtree n H) (children node) = Some xss" and ps: "ps = p # concat xss"
      by (auto split: option.splits if_splits)
    have "for_each ?self (children node) (tr @ [Visit (nodeType node) p], w (Some p) u)
        = Return ((tr @ [Visit (nodeType node) p]) @ visits H (concat xss),
                  fold w (map Some (concat xss)) (w (Some p) u))"
      by (rule for_each_gather_fold [OF _ g]) (rule Suc.IH)
    moreover have "run (Suc n) (override_call (work_then_base w)) H (Some p) (tr, u)
        = for_each ?self (children node) (tr @ [Visit (nodeType node) p], w (Some p) u)"
      using node rec
      by (simp add: run_override_call_Suc work_then_base_def Visitor_call_known
          Visitor_visit_children del: run.simps)
    ultimately show ?case
      by (simp add: op ps visits_def kind_at_def node del: run.simps)
  qed
  then show ?thesis
  proof (intro conjI ballI allI impI)
    fix p node
    assume p: "p \<in> set ps" and node: "H p = Some node"
    from subtree_member [OF assms p] obtain ds where
      "subtree n H (Some p) = Some (p # ds)" by blast
    with node have "recognized (nodeType node)"
      by (cases n) (auto split: if_splits)
    then show "Visitor_visit self (nodeType node) p node = for_each self (children node)" for self
      by (rule Visitor_visit_children)
  qed
qed

theorem entry_override_applies_at_every_node_witness:
  "subtree 8 S1 (Some 0) = Some [0, 1, 2, 3, 4, 5, 6, 7]
   \<and> run 8 (override_call (work_then_base (\<lambda>h u. u @ [h]))) S1 (Some 0) ([], []) =
       Return ([Visit Program 0, Visit Function 1, Visit StmtSeq 2, Visit Assign 3,
                Visit Var 4, Visit Add 5, Visit Var 6, Visit Integer 7],
               [Some 0, Some 1, Some 2, Some 3, Some 4, Some 5, Some 6, Some 7])"
proof -
  have v: "visits S1 [0, 1, 2, 3, 4, 5, 6, 7] =
      [Visit Program 0, Visit Function 1, Visit StmtSeq 2, Visit Assign 3,
       Visit Var 4, Visit Add 5, Visit Var 6, Visit Integer 7]"
    by (simp add: visits_def kind_at_def S1_def)
  from entry_override_applies_at_every_node
    [OF S1_subtree, of "\<lambda>h u. u @ [h]" "[]" "[]"]
  have "run 8 (override_call (work_then_base (\<lambda>h u. u @ [h]))) S1 (Some 0) ([], []) =
      Return ([] @ visits S1 [0, 1, 2, 3, 4, 5, 6, 7],
              fold (\<lambda>h u. u @ [h]) (map Some [0, 1, 2, 3, 4, 5, 6, 7]) [])"
    by blast
  then show ?thesis using S1_subtree v by simp
qed

section \<open>Cutting the walk below a node\<close>


















end
